theory Spec2Isabelle
  imports Complex_Main
begin

section \<open>The LightShow page: ripples, cursor tracking and the scroll translation\<close>

text \<open>
  The component \<^verbatim>\<open>App\<close> of \<^verbatim>\<open>src/app.jsx\<close> keeps three pieces of state:
  the React state \<^verbatim>\<open>ripples\<close>, the closure variable \<^verbatim>\<open>ticking\<close> of the
  cursor effect, and what the browser holds for it: the pending \<^verbatim>\<open>setTimeout\<close>
  callbacks, the pending \<^verbatim>\<open>requestAnimationFrame\<close> callbacks and the style
  variables of the document element. The model makes all of it one record and every
  handler a function on that record.

  Coordinates are only ever copied by the handlers, so their type is a parameter
  \<open>'n\<close>. Time is the millisecond count that \<^verbatim>\<open>Date.now()\<close> returns, a
  natural number; the same clock decides when a timeout is due.
\<close>

subsection \<open>Data\<close>

text \<open>The element type of \<^verbatim>\<open>useState<{ id: number; x: number; y: number }[]>\<close>.\<close>

record 'n ripple =
  id_r :: nat
  x_r :: 'n
  y_r :: 'n

text \<open>
  What the handlers read of a \<^verbatim>\<open>MouseEvent\<close> and of a \<^verbatim>\<open>Touch\<close>: both
  carry \<^verbatim>\<open>clientX\<close> and \<^verbatim>\<open>clientY\<close>. A \<^verbatim>\<open>TouchEvent\<close> carries the list
  \<^verbatim>\<open>touches\<close>.
\<close>

record 'n point =
  clientX :: 'n
  clientY :: 'n

record 'n touch_event =
  touches :: "'n point list"

text \<open>The template literal \<^verbatim>\<open>`${x}px`\<close>.\<close>

datatype 'n css = Px 'n

text \<open>Reading a property of \<^verbatim>\<open>undefined\<close> throws a \<^verbatim>\<open>TypeError\<close>.\<close>

datatype error = TypeError

record 'n world =
  clock :: nat
  ripples :: "'n ripple list"
  timers :: "(nat \<times> nat) list"
  ticking :: bool
  frame_callbacks :: "('n \<times> 'n) list"
  style_writes :: "(string \<times> 'n css) list"

text \<open>
  \<^item> \<open>clock\<close>: the current value of \<^verbatim>\<open>Date.now()\<close>;
  \<^item> \<open>timers\<close>: the pending \<^verbatim>\<open>setTimeout\<close> callbacks in the order of their
    registration, each as its due time and the \<^verbatim>\<open>newRipple.id\<close> its closure
    captured;
  \<^item> \<open>frame_callbacks\<close>: the pending \<^verbatim>\<open>requestAnimationFrame\<close> callbacks, each as
    the \<^verbatim>\<open>x\<close> and \<^verbatim>\<open>y\<close> its closure captured;
  \<^item> \<open>style_writes\<close>: every call of \<^verbatim>\<open>style.setProperty\<close> so far, oldest first.
\<close>

subsection \<open>The cursor effect\<close>

text \<open>
  The body of the callback given to \<^verbatim>\<open>requestAnimationFrame\<close>: two
  \<^verbatim>\<open>setProperty\<close> calls, then \<^verbatim>\<open>ticking = false\<close>.
\<close>

definition frame_callback :: "'n \<Rightarrow> 'n \<Rightarrow> 'n world \<Rightarrow> 'n world" where
  "frame_callback x y s =
     s\<lparr>style_writes := style_writes s @ [(''--cursor-x'', Px x), (''--cursor-y'', Px y)],
       ticking := False\<rparr>"

definition updateCursor :: "'n \<Rightarrow> 'n \<Rightarrow> 'n world \<Rightarrow> 'n world" where
  "updateCursor x y s =
     (if \<not> ticking s
      then s\<lparr>frame_callbacks := frame_callbacks s @ [(x, y)], ticking := True\<rparr>
      else s)"

definition handleMouseMove :: "'n point \<Rightarrow> 'n world \<Rightarrow> error + 'n world" where
  "handleMouseMove e s = Inr (updateCursor (clientX e) (clientY e) s)"

text \<open>
  \<^verbatim>\<open>e.touches[i]\<close> is \<^verbatim>\<open>undefined\<close> out of range, and reading
  \<^verbatim>\<open>clientX\<close> of it throws.
\<close>

definition item :: "'a list \<Rightarrow> nat \<Rightarrow> error + 'a" where
  "item xs i = (if i < length xs then Inr (xs ! i) else Inl TypeError)"

definition handleTouchMove :: "'n touch_event \<Rightarrow> 'n world \<Rightarrow> error + 'n world" where
  "handleTouchMove e s =
     (if length (touches e) > 0
      then (case item (touches e) 0 of
              Inl err \<Rightarrow> Inl err
            | Inr t0 \<Rightarrow>
                (case item (touches e) 0 of
                   Inl err \<Rightarrow> Inl err
                 | Inr t1 \<Rightarrow> Inr (updateCursor (clientX t0) (clientY t1) s)))
      else Inr s)"

text \<open>
  The effect body after the handler definitions: the initial centering writes
  (\<open>cx\<close> and \<open>cy\<close> stand for \<^verbatim>\<open>window.innerWidth / 2\<close> and
  \<^verbatim>\<open>window.innerHeight / 2\<close>), with \<^verbatim>\<open>ticking = false\<close> and
  \<^verbatim>\<open>useState([])\<close>. \<open>t0\<close> is the time of mounting.
\<close>

definition mount :: "'n \<Rightarrow> 'n \<Rightarrow> nat \<Rightarrow> 'n world" where
  "mount cx cy t0 =
     \<lparr>clock = t0, ripples = [], timers = [], ticking = False, frame_callbacks = [],
      style_writes = [(''--cursor-x'', Px cx), (''--cursor-y'', Px cy)]\<rparr>"

subsection \<open>Ripples\<close>

text \<open>
  The updater \<^verbatim>\<open>(prev) => prev.filter((r) => r.id !== newRipple.id)\<close> that the
  timeout callback gives to \<^verbatim>\<open>setRipples\<close>; \<open>rid\<close> is the captured
  \<^verbatim>\<open>newRipple.id\<close>.
\<close>

definition timeout_callback :: "nat \<Rightarrow> 'n world \<Rightarrow> 'n world" where
  "timeout_callback rid s = s\<lparr>ripples := filter (\<lambda>r. id_r r \<noteq> rid) (ripples s)\<rparr>"

text \<open>
  \<^verbatim>\<open>handleWaterClick\<close>: build \<^verbatim>\<open>newRipple\<close>, append it with the updater
  \<^verbatim>\<open>(prev) => [...prev, newRipple]\<close>, register the timeout with delay 2000.
  React applies updaters in the order they were queued, each to the result of the one
  before, so applying each at once gives the same collection.
\<close>

definition handleWaterClick :: "'n point \<Rightarrow> 'n world \<Rightarrow> error + 'n world" where
  "handleWaterClick e s =
     (let newRipple = \<lparr>id_r = clock s, x_r = clientX e, y_r = clientY e\<rparr>
      in Inr (s\<lparr>ripples := ripples s @ [newRipple],
                timers := timers s @ [(clock s + 2000, id_r newRipple)]\<rparr>))"

subsection \<open>The event loop\<close>

text \<open>
  One task of the single-threaded event loop at a time. \<open>Tick d\<close> lets \<open>d\<close>
  milliseconds pass. \<open>Timeout\<close> runs the oldest pending timeout callback; the browser
  runs it no earlier than its due time, and possibly later. All timeouts of this
  program have the same delay, so they run in the order of their registration.
  \<open>AnimationFrame\<close> runs the frame callbacks registered since the last frame.
\<close>

datatype 'n event =
    MouseMove "'n point"
  | TouchMove "'n touch_event"
  | TouchStart "'n touch_event"
  | Click "'n point"
  | AnimationFrame
  | Timeout
  | Tick nat

text \<open>A listener that throws has no successor state here.\<close>

definition returned :: "error + 'a \<Rightarrow> 'a option" where
  "returned r = (case r of Inl err \<Rightarrow> None | Inr v \<Rightarrow> Some v)"

fun run_frame :: "('n \<times> 'n) list \<Rightarrow> 'n world \<Rightarrow> 'n world" where
  "run_frame [] s = s"
| "run_frame ((x, y) # cbs) s = run_frame cbs (frame_callback x y s)"

fun step :: "'n event \<Rightarrow> 'n world \<Rightarrow> 'n world option" where
  "step (MouseMove e) s = returned (handleMouseMove e s)"
| "step (TouchMove e) s = returned (handleTouchMove e s)"
| "step (TouchStart e) s = returned (handleTouchMove e s)"
| "step (Click e) s = returned (handleWaterClick e s)"
| "step AnimationFrame s = Some (run_frame (frame_callbacks s) (s\<lparr>frame_callbacks := []\<rparr>))"
| "step Timeout s =
     (case timers s of
        [] \<Rightarrow> None
      | (due, rid) # rest \<Rightarrow>
          if due \<le> clock s then Some (timeout_callback rid (s\<lparr>timers := rest\<rparr>)) else None)"
| "step (Tick d) s = Some (s\<lparr>clock := clock s + d\<rparr>)"

fun run :: "'n event list \<Rightarrow> 'n world \<Rightarrow> 'n world option" where
  "run [] s = Some s"
| "run (e # es) s = (case step e s of None \<Rightarrow> None | Some s' \<Rightarrow> run es s')"

subsection \<open>What is observed of a state or of a trace\<close>

text \<open>
  A record's identifier is the time of its creation, so its age is the clock minus its
  identifier.
\<close>

definition younger_than_two_seconds :: "'n world \<Rightarrow> bool" where
  "younger_than_two_seconds s = list_all (\<lambda>r. clock s < id_r r + 2000) (ripples s)"

definition has_id :: "nat \<Rightarrow> 'n world \<Rightarrow> bool" where
  "has_id rid s = list_ex (\<lambda>r. id_r r = rid) (ripples s)"

text \<open>An expired timeout is waiting when the oldest pending one is due.\<close>

definition timeout_waiting :: "'n world \<Rightarrow> bool" where
  "timeout_waiting s = (case timers s of [] \<Rightarrow> False | (due, rid) # rest \<Rightarrow> due \<le> clock s)"

fun is_click :: "'n event \<Rightarrow> bool" where
  "is_click (Click e) = True"
| "is_click ev = False"

fun is_timeout :: "'n event \<Rightarrow> bool" where
  "is_timeout Timeout = True"
| "is_timeout ev = False"


subsection \<open>Invariants of the event loop\<close>

text \<open>
  The flag \<^verbatim>\<open>ticking\<close> is set exactly while one frame callback is pending.
\<close>

definition cursor_inv :: "'n world \<Rightarrow> bool" where
  "cursor_inv s = (if ticking s then length (frame_callbacks s) = 1 else frame_callbacks s = [])"

text \<open>
  Every record of the collection still has a timeout pending for its identifier; every
  pending timeout is due 2000 ms after the identifier it captured, which is not in the
  future; the pending timeouts are in the order of their due times.
\<close>

definition ripple_inv :: "'n world \<Rightarrow> bool" where
  "ripple_inv s =
     (list_all (\<lambda>r. (id_r r + 2000, id_r r) \<in> set (timers s)) (ripples s) \<and>
      list_all (\<lambda>(due, rid). due = rid + 2000 \<and> rid \<le> clock s) (timers s) \<and>
      sorted (map fst (timers s)))"

subsection \<open>The scroll translation\<close>

text \<open>
  \<^verbatim>\<open>useTransform(smoothProgress, [0, 1], ["0%", "-85.714%"])\<close>. The hook is
  framer-motion's; for a two-point range it clamps the input to the range and mixes the
  two outputs linearly. Percentages are the numbers in front of the \<^verbatim>\<open>%\<close>,
  as rationals. Inside the range the library also rounds the mixed number to five
  decimals, which this definition does not; at the two ends of the range, the only
  inputs used below, both give the output literal itself.
\<close>

definition useTransform :: "rat \<Rightarrow> rat \<times> rat \<Rightarrow> rat \<times> rat \<Rightarrow> rat" where
  "useTransform v inputRange outputRange =
     (let progress = (max (fst inputRange) (min (snd inputRange) v) - fst inputRange)
                       / (snd inputRange - fst inputRange)
      in fst outputRange + (snd outputRange - fst outputRange) * progress)"

definition yTranslate :: "rat \<Rightarrow> rat" where
  "yTranslate smoothProgress = useTransform smoothProgress (0, 1) (0, - 85.714)"

text \<open>
  The translated layer has the class \<^verbatim>\<open>h-[700vh]\<close>, and a percentage of
  \<^verbatim>\<open>y\<close> is taken of the element's own height: the offset in \<^verbatim>\<open>vh\<close>.
\<close>

definition layer_height_vh :: rat where
  "layer_height_vh = 700"

definition offset_vh :: "rat \<Rightarrow> rat" where
  "offset_vh smoothProgress = layer_height_vh * yTranslate smoothProgress / 100"

section \<open>Properties\<close>

text \<open>
  C1. A click handled by \<^verbatim>\<open>handleWaterClick\<close> appends exactly one ripple record to
  the collection, with the identifier \<^verbatim>\<open>Date.now()\<close> and the two coordinates of
  the event; the records already there stay as they are, in their places.
\<close>

theorem handleWaterClick_appends_one:
  "\<exists>s'. handleWaterClick e s = Inr s' \<and>
        ripples s' = ripples s @ [\<lparr>id_r = clock s, x_r = clientX e, y_r = clientY e\<rparr>] \<and>
        length (ripples s') = Suc (length (ripples s)) \<and>
        take (length (ripples s)) (ripples s') = ripples s"
  by (simp add: handleWaterClick_def)

subsection \<open>The event loop keeps its invariants\<close>

lemma mount_cursor_inv: "cursor_inv (mount cx cy t0)"
  by (simp add: cursor_inv_def mount_def)

lemma mount_ripple_inv: "ripple_inv (mount cx cy t0)"
  by (simp add: ripple_inv_def mount_def)

lemma updateCursor_cursor_inv: "cursor_inv s \<Longrightarrow> cursor_inv (updateCursor x y s)"
  by (simp add: cursor_inv_def updateCursor_def)

lemma handleTouchMove_returns:
  "handleTouchMove e s =
     Inr (case touches e of [] \<Rightarrow> s | t # ts \<Rightarrow> updateCursor (clientX t) (clientY t) s)"
  by (cases "touches e") (simp_all add: handleTouchMove_def item_def)

lemma step_cursor_inv:
  assumes "cursor_inv s" and "step e s = Some s'"
  shows "cursor_inv s'"
proof (cases e)
  case (MouseMove p)
  with assms show ?thesis
    by (auto simp: returned_def handleMouseMove_def updateCursor_cursor_inv)
next
  case (TouchMove t)
  with assms show ?thesis
    by (auto simp: returned_def handleTouchMove_returns updateCursor_cursor_inv split: list.splits)
next
  case (TouchStart t)
  with assms show ?thesis
    by (auto simp: returned_def handleTouchMove_returns updateCursor_cursor_inv split: list.splits)
next
  case (Click p)
  with assms show ?thesis
    by (auto simp: returned_def handleWaterClick_def cursor_inv_def)
next
  case AnimationFrame
  show ?thesis
  proof (cases "ticking s")
    case True
    with assms(1) obtain x y where "frame_callbacks s = [(x, y)]"
      by (auto simp: cursor_inv_def length_Suc_conv)
    with assms AnimationFrame show ?thesis
      by (auto simp: cursor_inv_def frame_callback_def)
  next
    case False
    with assms AnimationFrame show ?thesis
      by (auto simp: cursor_inv_def)
  qed
next
  case Timeout
  with assms show ?thesis
    by (auto simp: cursor_inv_def timeout_callback_def split: list.splits if_splits)
next
  case (Tick d)
  with assms show ?thesis
    by (auto simp: cursor_inv_def)
qed

lemma step_ripple_inv:
  assumes "ripple_inv s" and "step e s = Some s'"
  shows "ripple_inv s'"
proof (cases e)
  case (MouseMove p)
  with assms show ?thesis
    by (auto simp: returned_def handleMouseMove_def updateCursor_def ripple_inv_def)
next
  case (TouchMove t)
  with assms show ?thesis
    by (auto simp: returned_def handleTouchMove_returns updateCursor_def ripple_inv_def split: list.splits)
next
  case (TouchStart t)
  with assms show ?thesis
    by (auto simp: returned_def handleTouchMove_returns updateCursor_def ripple_inv_def split: list.splits)
next
  case (Click p)
  with assms show ?thesis
    by (fastforce simp: returned_def handleWaterClick_def ripple_inv_def list_all_iff sorted_append)
next
  case AnimationFrame
  have "ripples (run_frame cbs t) = ripples t \<and> timers (run_frame cbs t) = timers t \<and> clock (run_frame cbs t) = clock t" for cbs and t :: "'a world"
    by (induction cbs t rule: run_frame.induct) (simp_all add: frame_callback_def)
  with assms AnimationFrame show ?thesis
    by (auto simp: ripple_inv_def)
next
  case Timeout
  with assms show ?thesis
    by (fastforce simp: ripple_inv_def timeout_callback_def list_all_iff split: list.splits if_splits)
next
  case (Tick d)
  with assms show ?thesis
    by (fastforce simp: ripple_inv_def list_all_iff)
qed

lemma run_cursor_inv: "cursor_inv s \<Longrightarrow> run es s = Some s' \<Longrightarrow> cursor_inv s'"
  by (induction es arbitrary: s) (auto split: option.splits dest: step_cursor_inv)

lemma run_ripple_inv: "ripple_inv s \<Longrightarrow> run es s = Some s' \<Longrightarrow> ripple_inv s'"
  by (induction es arbitrary: s) (auto split: option.splits dest: step_ripple_inv)

lemma run_frame_keeps:
  "ripples (run_frame cbs s) = ripples s \<and> timers (run_frame cbs s) = timers s \<and>
   clock (run_frame cbs s) = clock s"
  by (induction cbs s rule: run_frame.induct) (simp_all add: frame_callback_def)

lemma step_clock_mono: "step e s = Some s' \<Longrightarrow> clock s \<le> clock s'"
  by (cases e)
     (auto simp: returned_def handleMouseMove_def handleTouchMove_returns updateCursor_def
        handleWaterClick_def timeout_callback_def run_frame_keeps
        split: list.splits if_splits)

lemma run_clock_mono: "run es s = Some s' \<Longrightarrow> clock s \<le> clock s'"
proof (induction es arbitrary: s)
  case Nil
  then show ?case by simp
next
  case (Cons e es)
  then obtain s1 where "step e s = Some s1" and "run es s1 = Some s'"
    by (auto split: option.splits)
  with Cons.IH [of s1] step_clock_mono [of e s s1] show ?case by simp
qed

text \<open>What each kind of event does to the collection and to the timeouts.\<close>

lemma step_Click:
  "step (Click p) s =
     Some (s\<lparr>ripples := ripples s @ [\<lparr>id_r = clock s, x_r = clientX p, y_r = clientY p\<rparr>],
             timers := timers s @ [(clock s + 2000, clock s)]\<rparr>)"
  by (simp add: returned_def handleWaterClick_def)

lemma step_other_keeps:
  "\<not> is_click e \<Longrightarrow> \<not> is_timeout e \<Longrightarrow> step e s = Some s' \<Longrightarrow>
   ripples s' = ripples s \<and> timers s' = timers s"
  by (cases e)
     (auto simp: returned_def handleMouseMove_def handleTouchMove_returns updateCursor_def
        run_frame_keeps split: list.splits if_splits)

lemma step_Timeout:
  "step Timeout s = Some s' \<Longrightarrow>
   \<exists>due rid rest. timers s = (due, rid) # rest \<and> due \<le> clock s \<and>
     s' = s\<lparr>timers := rest, ripples := filter (\<lambda>r. id_r r \<noteq> rid) (ripples s)\<rparr>"
  by (auto simp: timeout_callback_def split: list.splits if_splits)

lemma has_id_iff: "has_id rid s \<longleftrightarrow> (\<exists>r\<in>set (ripples s). id_r r = rid)"
  by (simp add: has_id_def list_ex_iff)

lemma ripple_inv_timerD:
  "ripple_inv s \<Longrightarrow> (due, rid) \<in> set (timers s) \<Longrightarrow> due = rid + 2000 \<and> rid \<le> clock s"
  by (fastforce simp: ripple_inv_def list_all_iff)

lemma ripple_inv_rippleD:
  "ripple_inv s \<Longrightarrow> r \<in> set (ripples s) \<Longrightarrow>
   (id_r r + 2000, id_r r) \<in> set (timers s) \<and> id_r r \<le> clock s"
  by (fastforce simp: ripple_inv_def list_all_iff)



text \<open>A record is not removed before 2000 ms have passed on the clock.\<close>

lemma step_not_removed_early:
  assumes "ripple_inv s" and "r \<in> set (ripples s)" and "step e s = Some s'"
    and "clock s < id_r r + 2000"
  shows "r \<in> set (ripples s')"
proof (cases "is_click e")
  case True
  then obtain p where "e = Click p" by (cases e) auto
  with assms step_Click [of p s] show ?thesis by auto
next
  case False
  show ?thesis
  proof (cases "is_timeout e")
    case True
    then have "e = Timeout" by (cases e) auto
    with assms step_Timeout [of s s'] obtain due rid rest where
      t: "timers s = (due, rid) # rest" "due \<le> clock s"
        "ripples s' = filter (\<lambda>r. id_r r \<noteq> rid) (ripples s)"
      by auto
    from t assms(1) ripple_inv_timerD [of s due rid] have "due = rid + 2000" by simp
    with t assms show ?thesis by auto
  next
    case nt: False
    with False assms step_other_keeps [of e s s'] show ?thesis by simp
  qed
qed

lemma run_not_removed_early:
  "ripple_inv s \<Longrightarrow> r \<in> set (ripples s) \<Longrightarrow> run es s = Some s' \<Longrightarrow>
   clock s' < id_r r + 2000 \<Longrightarrow> r \<in> set (ripples s')"
proof (induction es arbitrary: s)
  case Nil
  then show ?case by simp
next
  case (Cons e es)
  then obtain s1 where s1: "step e s = Some s1" "run es s1 = Some s'"
    by (auto split: option.splits)
  from s1 have "clock s \<le> clock s'"
    using step_clock_mono [of e s s1] run_clock_mono [of es s1 s'] by simp
  with Cons.prems s1 have "r \<in> set (ripples s1)"
    by (auto intro: step_not_removed_early)
  moreover from Cons.prems s1 have "ripple_inv s1" by (blast intro: step_ripple_inv)
  ultimately show ?case using Cons.IH Cons.prems s1 by blast
qed



lemma reachable_invs:
  "run es (mount cx cy t0) = Some s \<Longrightarrow> cursor_inv s \<and> ripple_inv s"
  using run_cursor_inv [of "mount cx cy t0" es s] run_ripple_inv [of "mount cx cy t0" es s]
  by (simp add: mount_cursor_inv mount_ripple_inv)

lemma head_due_least:
  "ripple_inv s \<Longrightarrow> timers s = (due, rid) # rest \<Longrightarrow> r \<in> set (ripples s) \<Longrightarrow>
   due \<le> id_r r + 2000"
proof -
  assume inv: "ripple_inv s" and t: "timers s = (due, rid) # rest" and r: "r \<in> set (ripples s)"
  from inv r have "(id_r r + 2000, id_r r) \<in> set (timers s)"
    by (simp add: ripple_inv_rippleD)
  then have "id_r r + 2000 \<in> set (map fst (timers s))" by force
  moreover from inv have "sorted (map fst (timers s))" by (simp add: ripple_inv_def)
  ultimately show ?thesis using t by auto
qed


subsection \<open>Ripples and their timeouts\<close>




text \<open>
  C3. In every state the event loop can reach from mounting, by any interleaving of
  clicks, moves, frames, passing time and timeouts: when no expired timeout is waiting
  to run, the collection holds only records created less than two seconds ago; and in
  any case every record of the collection was created at or before the current time
  and still has its removal timeout pending.
\<close>

theorem young_when_no_timeout_waiting:
  assumes "run es (mount cx cy t0) = Some s"
  shows "(\<not> timeout_waiting s \<longrightarrow> younger_than_two_seconds s) \<and>
         list_all (\<lambda>r. id_r r \<le> clock s \<and> (id_r r + 2000, id_r r) \<in> set (timers s)) (ripples s)"
proof -
  from assms have inv: "ripple_inv s" by (simp add: reachable_invs)
  have "clock s < id_r r + 2000" if nw: "\<not> timeout_waiting s" and r: "r \<in> set (ripples s)" for r
  proof -
    from inv r have "(id_r r + 2000, id_r r) \<in> set (timers s)" by (simp add: ripple_inv_rippleD)
    then obtain due rid rest where t: "timers s = (due, rid) # rest"
      by (cases "timers s") auto
    with nw have "clock s < due" by (simp add: timeout_waiting_def)
    with head_due_least [OF inv t r] show ?thesis by simp
  qed
  moreover from inv have "id_r r \<le> clock s \<and> (id_r r + 2000, id_r r) \<in> set (timers s)"
    if "r \<in> set (ripples s)" for r
    using that by (simp add: ripple_inv_rippleD)
  ultimately show ?thesis
    by (simp add: younger_than_two_seconds_def list_all_iff)
qed


text \<open>A click at time 0, seen at time 1999.\<close>

theorem young_when_no_timeout_waiting_witness:
  "\<exists>s. run [Click \<lparr>clientX = 10, clientY = 20\<rparr>, Tick 1999] (mount (0::int) 0 0) = Some s \<and>
     \<not> timeout_waiting s \<and> younger_than_two_seconds s \<and> map id_r (ripples s) = [0] \<and>
     clock s = 1999"
proof -
  let ?s = "\<lparr>clock = 1999, ripples = [\<lparr>id_r = 0, x_r = 10::int, y_r = 20\<rparr>],
     timers = [(2000, 0)], ticking = False, frame_callbacks = [],
     style_writes = [(''--cursor-x'', Px (0::int)), (''--cursor-y'', Px 0)]\<rparr>"
  have r: "run [Click \<lparr>clientX = 10, clientY = 20\<rparr>, Tick 1999] (mount (0::int) 0 0) = Some ?s"
    by (simp add: mount_def returned_def handleWaterClick_def)
  have nw: "\<not> timeout_waiting ?s" by (simp add: timeout_waiting_def)
  with young_when_no_timeout_waiting [OF r] have "younger_than_two_seconds ?s" by blast
  with r nw show ?thesis by (intro exI [of _ ?s]) simp
qed

text \<open>
  C3 as it is written has no condition on the waiting timeouts. A click at time 0 and a
  second click at time 2000, handled before the expired timeout of the first: the
  collection then holds the record with identifier 0, which is two seconds old.
\<close>

theorem old_ripple_before_expired_timeout_runs:
  "map_option (\<lambda>s. (clock s, map id_r (ripples s), younger_than_two_seconds s))
     (run [Click \<lparr>clientX = 10, clientY = 20\<rparr>, Tick 2000, Click \<lparr>clientX = 30, clientY = 40\<rparr>]
        (mount (0::int) 0 0))
   = Some (2000, [0, 2000], False)"
  by (simp add: mount_def returned_def handleWaterClick_def younger_than_two_seconds_def)

text \<open>
  C4. No ripple record is changed after its creation. Whatever the event, the
  collection after it is the collection before with one new record appended (a click),
  or with the records of one identifier filtered out (a timeout), or the same
  collection (every other event). The surviving records are the same values, fields
  \<open>id_r\<close>, \<open>x_r\<close> and \<open>y_r\<close> included, in the same order.
\<close>

theorem ripples_never_mutated:
  assumes "step ev s = Some s'"
  shows "(\<exists>p. ev = Click p \<and>
            ripples s' = ripples s @ [\<lparr>id_r = clock s, x_r = clientX p, y_r = clientY p\<rparr>]) \<or>
         (\<exists>due rid rest. ev = Timeout \<and> timers s = (due, rid) # rest \<and>
            ripples s' = filter (\<lambda>r. id_r r \<noteq> rid) (ripples s)) \<or>
         (\<not> is_click ev \<and> \<not> is_timeout ev \<and> ripples s' = ripples s)"
proof (cases "is_click ev")
  case True
  then obtain p where "ev = Click p" by (cases ev) auto
  with assms step_Click [of p s] show ?thesis by auto
next
  case False
  show ?thesis
  proof (cases "is_timeout ev")
    case True
    then have "ev = Timeout" by (cases ev) auto
    with assms step_Timeout [of s s'] show ?thesis by auto
  next
    case nt: False
    with False assms step_other_keeps [of ev s s'] show ?thesis by simp
  qed
qed

text \<open>Two clicks at time 7: the second leaves the record of the first as it was.\<close>

theorem ripples_never_mutated_witness:
  "\<exists>s s1 s2. step (Click \<lparr>clientX = 10, clientY = 20\<rparr>) s = Some s1 \<and>
     step (Click \<lparr>clientX = 30, clientY = 40\<rparr>) s1 = Some s2 \<and>
     ripples s2 = ripples s1 @ [\<lparr>id_r = 7, x_r = 30::int, y_r = 40\<rparr>] \<and>
     ripples s1 = [\<lparr>id_r = 7, x_r = 10, y_r = 20\<rparr>]"
proof -
  let ?s = "mount (0::int) 0 7"
  let ?s1 = "?s\<lparr>ripples := [\<lparr>id_r = 7, x_r = 10::int, y_r = 20\<rparr>], timers := [(2007, 7)]\<rparr>"
  let ?s2 = "?s1\<lparr>ripples := [\<lparr>id_r = 7, x_r = 10::int, y_r = 20\<rparr>, \<lparr>id_r = 7, x_r = 30, y_r = 40\<rparr>],
     timers := [(2007, 7), (2007, 7)]\<rparr>"
  have a: "step (Click \<lparr>clientX = 10, clientY = 20\<rparr>) ?s = Some ?s1"
    by (simp add: mount_def returned_def handleWaterClick_def)
  have b: "step (Click \<lparr>clientX = 30, clientY = 40\<rparr>) ?s1 = Some ?s2"
    by (simp add: mount_def returned_def handleWaterClick_def)
  from ripples_never_mutated [OF b]
  have "ripples ?s2 = ripples ?s1 @ [\<lparr>id_r = 7, x_r = 30::int, y_r = 40\<rparr>]"
    by (simp add: mount_def)
  with a b show ?thesis
    by (intro exI [of _ ?s] exI [of _ ?s1] exI [of _ ?s2]) (simp add: mount_def)
qed

lemma step_timer_count:
  "step e s = Some s' \<Longrightarrow>
   length (timers s') + (if is_timeout e then 1 else 0) =
   length (timers s) + (if is_click e then 1 else 0)"
  by (cases e)
     (auto simp: returned_def handleMouseMove_def handleTouchMove_returns updateCursor_def
        handleWaterClick_def timeout_callback_def run_frame_keeps
        split: list.splits if_splits)

lemma run_timer_count:
  "run es s = Some s' \<Longrightarrow>
   length (timers s') + length (filter is_timeout es) =
   length (timers s) + length (filter is_click es)"
proof (induction es arbitrary: s)
  case Nil
  then show ?case by simp
next
  case (Cons e es)
  then obtain s1 where s1: "step e s = Some s1" "run es s1 = Some s'"
    by (auto split: option.splits)
  from Cons.IH [OF s1(2)] step_timer_count [OF s1(1)] show ?case
    by (simp split: if_splits)
qed

text \<open>
  C6. Every click schedules exactly one removal timeout, for the identifier of the
  record it created, and no timeout is ever cancelled: along every run from mounting the
  timeouts still pending and the timeouts that have run add up to the number of clicks;
  a timeout leaves the queue only by running, when it is due; every other event keeps
  the pending timeouts and at most adds one at the end.
\<close>

theorem one_timeout_per_click_none_cancelled:
  assumes "run es (mount cx cy t0) = Some s"
  shows "length (timers s) + length (filter is_timeout es) = length (filter is_click es) \<and>
         (\<exists>s1. handleWaterClick p s = Inr s1 \<and>
            timers s1 = timers s @ [(clock s + 2000, id_r (last (ripples s1)))]) \<and>
         (\<forall>ev s'. step ev s = Some s' \<longrightarrow>
            (if is_timeout ev
             then \<exists>due rid. timers s = (due, rid) # timers s' \<and> due \<le> clock s
             else take (length (timers s)) (timers s') = timers s))"
proof -
  from run_timer_count [OF assms]
  have a: "length (timers s) + length (filter is_timeout es) = length (filter is_click es)"
    by (simp add: mount_def)
  have b: "\<exists>s1. handleWaterClick p s = Inr s1 \<and>
            timers s1 = timers s @ [(clock s + 2000, id_r (last (ripples s1)))]"
    by (simp add: handleWaterClick_def)
  have c: "if is_timeout ev
             then \<exists>due rid. timers s = (due, rid) # timers s' \<and> due \<le> clock s
             else take (length (timers s)) (timers s') = timers s"
    if st: "step ev s = Some s'" for ev s'
  proof (cases "is_timeout ev")
    case True
    then have "ev = Timeout" by (cases ev) auto
    with st step_Timeout [of s s'] True show ?thesis by auto
  next
    case False
    show ?thesis
    proof (cases "is_click ev")
      case True
      then obtain q where "ev = Click q" by (cases ev) auto
      with st step_Click [of q s] False show ?thesis by auto
    next
      case nc: False
      with False st step_other_keeps [of ev s s'] show ?thesis by simp
    qed
  qed
  from a b c show ?thesis by blast
qed

text \<open>Two clicks and one timeout run: one timeout is still pending.\<close>

theorem one_timeout_per_click_none_cancelled_witness:
  "\<exists>s. run [Click \<lparr>clientX = 10, clientY = 20\<rparr>, Click \<lparr>clientX = 30, clientY = 40\<rparr>, Tick 2500,
          Timeout] (mount (0::int) 0 0) = Some s \<and>
     length (timers s) + 1 = 2 \<and> timers s = [(2000, 0)]"
proof -
  let ?es = "[Click \<lparr>clientX = 10, clientY = 20\<rparr>, Click \<lparr>clientX = 30, clientY = 40\<rparr>, Tick 2500,
          Timeout]"
  let ?s = "\<lparr>clock = 2500, ripples = [], timers = [(2000, 0)], ticking = False,
     frame_callbacks = [], style_writes = [(''--cursor-x'', Px (0::int)), (''--cursor-y'', Px 0)]\<rparr>"
  have r: "run ?es (mount (0::int) 0 0) = Some ?s"
    by (simp add: mount_def returned_def handleWaterClick_def timeout_callback_def)
  from one_timeout_per_click_none_cancelled [OF r, of "\<lparr>clientX = 10, clientY = 20\<rparr>"]
  have "length (timers ?s) + 1 = 2" by simp
  with r show ?thesis by (intro exI [of _ ?s]) simp
qed


subsection \<open>Cursor tracking\<close>

lemma run_frame_at_most_one:
  "length cbs \<le> 1 \<Longrightarrow>
   frame_callbacks (run_frame cbs s) = frame_callbacks s \<and>
   (case cbs of
      [] \<Rightarrow> style_writes (run_frame cbs s) = style_writes s
    | (x, y) # rest \<Rightarrow> style_writes (run_frame cbs s) =
        style_writes s @ [(''--cursor-x'', Px x), (''--cursor-y'', Px y)])"
  by (cases cbs) (auto simp: frame_callback_def)

lemma step_writes_only_in_frame:
  "e \<noteq> AnimationFrame \<Longrightarrow> step e s = Some s' \<Longrightarrow> style_writes s' = style_writes s"
  by (cases e)
     (auto simp: returned_def handleMouseMove_def handleTouchMove_returns updateCursor_def
        handleWaterClick_def timeout_callback_def split: list.splits if_splits)

text \<open>
  C5. The cursor tracking is throttled to one update per animation frame. In every
  state the event loop can reach, at most one frame callback is pending, whatever
  sequence of move and touch events has arrived since the last frame; the next frame
  performs no write or exactly one pair of writes, of \<^verbatim>\<open>--cursor-x\<close> and
  \<^verbatim>\<open>--cursor-y\<close>, and leaves no callback pending; no other event writes a
  style variable.
\<close>

theorem cursor_writes_throttled:
  assumes "run es (mount cx cy t0) = Some s"
  shows "length (frame_callbacks s) \<le> 1 \<and>
         (\<exists>s'. step AnimationFrame s = Some s' \<and> frame_callbacks s' = [] \<and>
            (style_writes s' = style_writes s \<or>
             (\<exists>x y. style_writes s' =
                style_writes s @ [(''--cursor-x'', Px x), (''--cursor-y'', Px y)]))) \<and>
         (\<forall>ev s'. ev \<noteq> AnimationFrame \<and> step ev s = Some s' \<longrightarrow>
            style_writes s' = style_writes s)"
proof -
  from assms have "cursor_inv s" by (simp add: reachable_invs)
  then have one: "length (frame_callbacks s) \<le> 1"
    by (simp add: cursor_inv_def split: if_splits)
  from run_frame_at_most_one [OF one, of "s\<lparr>frame_callbacks := []\<rparr>"]
  have "\<exists>s'. step AnimationFrame s = Some s' \<and> frame_callbacks s' = [] \<and>
            (style_writes s' = style_writes s \<or>
             (\<exists>x y. style_writes s' =
                style_writes s @ [(''--cursor-x'', Px x), (''--cursor-y'', Px y)]))"
    by (cases "frame_callbacks s") auto
  with one step_writes_only_in_frame [of _ s] show ?thesis by blast
qed

text \<open>Three moves before a frame: one callback, one pair of writes.\<close>

theorem cursor_writes_throttled_witness:
  "\<exists>s s'. run [MouseMove \<lparr>clientX = 1, clientY = 1\<rparr>, MouseMove \<lparr>clientX = 2, clientY = 2\<rparr>,
            TouchMove \<lparr>touches = [\<lparr>clientX = 3, clientY = 3\<rparr>]\<rparr>] (mount (0::int) 0 0) = Some s \<and>
     length (frame_callbacks s) = 1 \<and> step AnimationFrame s = Some s' \<and>
     length (style_writes s') = length (style_writes s) + 2"
proof -
  let ?es = "[MouseMove \<lparr>clientX = 1, clientY = 1\<rparr>, MouseMove \<lparr>clientX = 2, clientY = 2\<rparr>,
            TouchMove \<lparr>touches = [\<lparr>clientX = 3, clientY = 3\<rparr>]\<rparr>]"
  let ?s = "(mount (0::int) 0 0)\<lparr>ticking := True, frame_callbacks := [(1, 1)]\<rparr>"
  let ?s' = "(mount (0::int) 0 0)\<lparr>style_writes := [(''--cursor-x'', Px 0), (''--cursor-y'', Px 0),
     (''--cursor-x'', Px 1), (''--cursor-y'', Px 1)]\<rparr>"
  have r: "run ?es (mount (0::int) 0 0) = Some ?s"
    by (simp add: mount_def returned_def handleMouseMove_def handleTouchMove_def item_def
          updateCursor_def)
  have f: "step AnimationFrame ?s = Some ?s'"
    by (simp add: mount_def frame_callback_def)
  from cursor_writes_throttled [OF r] have "length (frame_callbacks ?s) \<le> 1" by blast
  then have "length (frame_callbacks ?s) = 1" by (simp add: mount_def)
  with r f show ?thesis
    by (intro exI [of _ ?s] exI [of _ ?s']) (simp add: mount_def)
qed

text \<open>
  C7. No handler can fail. \<^verbatim>\<open>handleWaterClick\<close>, \<^verbatim>\<open>handleMouseMove\<close> and
  \<^verbatim>\<open>handleTouchMove\<close> return normally on every event and in every state; on an
  event with an empty touch list \<^verbatim>\<open>handleTouchMove\<close> returns the state as it
  was. So the event loop has a next state for every click, move and touch event.
\<close>

theorem handlers_total:
  "(\<exists>s'. handleWaterClick p s = Inr s') \<and>
   (\<exists>s'. handleMouseMove p s = Inr s') \<and>
   (\<exists>s'. handleTouchMove t s = Inr s') \<and>
   handleTouchMove \<lparr>touches = []\<rparr> s = Inr s \<and>
   step (Click p) s \<noteq> None \<and> step (MouseMove p) s \<noteq> None \<and>
   step (TouchMove t) s \<noteq> None \<and> step (TouchStart t) s \<noteq> None"
  by (simp add: handleWaterClick_def handleMouseMove_def handleTouchMove_returns returned_def)







subsection \<open>The scroll translation at its ends\<close>

text \<open>
  C10. \<^verbatim>\<open>yTranslate\<close> sends progress 0 to \<^verbatim>\<open>0%\<close> and progress 1 to
  \<^verbatim>\<open>-85.714%\<close>. That
  number is -6/7 as a percentage, -85.714285..., rounded to three decimals, and it is
  not -6/7 itself: at full scroll the layer of 700vh is offset by -599.998vh, not by the
  -600vh that -6/7 of its height would be.
\<close>

theorem yTranslate_endpoints_rounded:
  "yTranslate 0 = 0 \<and> yTranslate 1 = - 85.714 \<and>
   yTranslate 1 = of_int (round (- (6 / 7) * 100 * 1000 :: rat)) / 1000 \<and>
   yTranslate 1 \<noteq> - (6 / 7) * 100 \<and>
   offset_vh 0 = 0 \<and> offset_vh 1 = - 599.998 \<and> offset_vh 1 \<noteq> - 600 \<and>
   - (6 / 7) * layer_height_vh = - 600"
proof -
  have "round (- (6 / 7) * 100 * 1000 :: rat) = - 85714"
    by (simp add: round_def floor_unique)
  then show ?thesis
    by (simp add: yTranslate_def useTransform_def offset_vh_def layer_height_vh_def)
qed


subsection \<open>Clicks in the same millisecond\<close>

text \<open>
  While a record with an identifier is present, or can still be created, none of the
  timeouts registered for that identifier has run.
\<close>

lemma step_keeps_pending:
  assumes inv: "ripple_inv s" and st: "step e s = Some s'"
    and before: "has_id rid s \<or> clock s < rid + 2000 \<Longrightarrow>
                 n \<le> count_list (timers s) (rid + 2000, rid)"
    and now: "has_id rid s' \<or> clock s' < rid + 2000"
  shows "n \<le> count_list (timers s') (rid + 2000, rid)"
proof (cases "is_click e")
  case True
  then obtain p where e: "e = Click p" by (cases e) auto
  with st step_Click [of p s] have s': "ripples s' =
      ripples s @ [\<lparr>id_r = clock s, x_r = clientX p, y_r = clientY p\<rparr>]"
    "timers s' = timers s @ [(clock s + 2000, clock s)]" "clock s' = clock s"
    by auto
  from now s' have "has_id rid s \<or> clock s < rid + 2000"
    by (auto simp: has_id_iff)
  from before [OF this] s' show ?thesis by simp
next
  case False
  show ?thesis
  proof (cases "is_timeout e")
    case True
    then have "e = Timeout" by (cases e) auto
    with st step_Timeout [of s s'] obtain due rid' rest where
      t: "timers s = (due, rid') # rest" "due \<le> clock s" "timers s' = rest"
        "ripples s' = filter (\<lambda>r. id_r r \<noteq> rid') (ripples s)" "clock s' = clock s"
      by auto
    from inv t have due: "due = rid' + 2000" using ripple_inv_timerD [of s due rid'] by simp
    from now t due have ne: "rid' \<noteq> rid" by (auto simp: has_id_iff)
    from now t have "has_id rid s \<or> clock s < rid + 2000" by (auto simp: has_id_iff)
    from before [OF this] t ne show ?thesis by simp
  next
    case nt: False
    from nt False st step_other_keeps [of e s s'] have
      k: "ripples s' = ripples s" "timers s' = timers s" by simp_all
    from now k step_clock_mono [OF st] have "has_id rid s \<or> clock s < rid + 2000"
      by (auto simp: has_id_iff)
    from before [OF this] k show ?thesis by simp
  qed
qed

lemma run_keeps_pending:
  "ripple_inv s \<Longrightarrow> run es s = Some s' \<Longrightarrow>
   (has_id rid s \<or> clock s < rid + 2000 \<longrightarrow> n \<le> count_list (timers s) (rid + 2000, rid)) \<Longrightarrow>
   has_id rid s' \<or> clock s' < rid + 2000 \<Longrightarrow>
   n \<le> count_list (timers s') (rid + 2000, rid)"
proof (induction es arbitrary: s)
  case Nil
  then show ?case by simp
next
  case (Cons e es)
  then obtain s1 where s1: "step e s = Some s1" "run es s1 = Some s'"
    by (auto split: option.splits)
  from Cons.prems(1) s1 have inv1: "ripple_inv s1" by (blast intro: step_ripple_inv)
  have "has_id rid s1 \<or> clock s1 < rid + 2000 \<longrightarrow>
        n \<le> count_list (timers s1) (rid + 2000, rid)"
    using step_keeps_pending [OF Cons.prems(1) s1(1), of rid n] Cons.prems(3) by blast
  from Cons.IH [OF inv1 s1(2) this Cons.prems(4)] show ?case .
qed

text \<open>
  C8. Identifiers are creation timestamps and need not be unique. Two clicks handled
  with no time passing between them create two records with the same identifier and
  register two timeouts with the same due time. In every later state:
  \<^item> before 2000 ms have passed on the clock, the second record is still in the
    collection;
  \<^item> when a timeout for that identifier runs while a record with it is present, its
    filter removes every record with the identifier, the second click's included;
    another timeout for the identifier, the second click's own, is then still pending;
    and this happens 2000 ms after the creation or later.
\<close>

theorem same_millisecond_clicks:
  assumes reach: "run es (mount cx cy t0) = Some s"
    and two: "run [Click a, Click b] s = Some s2"
    and cont: "run fs s2 = Some s3"
  shows "ripples s2 = ripples s @ [\<lparr>id_r = clock s, x_r = clientX a, y_r = clientY a\<rparr>,
                                   \<lparr>id_r = clock s, x_r = clientX b, y_r = clientY b\<rparr>] \<and>
         timers s2 = timers s @ [(clock s + 2000, clock s), (clock s + 2000, clock s)] \<and>
         (clock s3 < clock s + 2000 \<longrightarrow>
            \<lparr>id_r = clock s, x_r = clientX b, y_r = clientY b\<rparr> \<in> set (ripples s3)) \<and>
         (\<forall>s4. has_id (clock s) s3 \<and> hd (timers s3) = (clock s + 2000, clock s) \<and>
               step Timeout s3 = Some s4 \<longrightarrow>
               \<not> has_id (clock s) s4 \<and> (clock s + 2000, clock s) \<in> set (timers s4) \<and>
               clock s + 2000 \<le> clock s4)"
proof -
  let ?b = "\<lparr>id_r = clock s, x_r = clientX b, y_r = clientY b\<rparr>"
  let ?T = "(clock s + 2000, clock s)"
  from two have s2: "ripples s2 = ripples s @ [\<lparr>id_r = clock s, x_r = clientX a, y_r = clientY a\<rparr>, ?b]"
    "timers s2 = timers s @ [?T, ?T]" "clock s2 = clock s"
    by (auto simp: returned_def handleWaterClick_def)
  from reach have "ripple_inv s" by (simp add: reachable_invs)
  with two have inv2: "ripple_inv s2" by (blast intro: run_ripple_inv)
  have early: "?b \<in> set (ripples s3)" if "clock s3 < clock s + 2000"
    using run_not_removed_early [OF inv2 _ cont, of ?b] s2 that by simp
  have fire: "\<not> has_id (clock s) s4 \<and> ?T \<in> set (timers s4) \<and> clock s + 2000 \<le> clock s4"
    if h: "has_id (clock s) s3" and hd: "hd (timers s3) = ?T" and st: "step Timeout s3 = Some s4"
    for s4
  proof -
    from s2 have "2 \<le> count_list (timers s2) ?T" by simp
    with run_keeps_pending [OF inv2 cont, of "clock s" 2] h
    have c: "2 \<le> count_list (timers s3) ?T" by simp
    from step_Timeout [OF st] hd obtain rest where
      t: "timers s3 = ?T # rest" "clock s + 2000 \<le> clock s3"
        "s4 = s3\<lparr>timers := rest, ripples := filter (\<lambda>r. id_r r \<noteq> clock s) (ripples s3)\<rparr>"
      by auto
    from c t have "count_list rest ?T \<noteq> 0" by simp
    then have "?T \<in> set rest" by (simp add: count_list_0_iff)
    with t show ?thesis by (simp add: has_id_iff)
  qed
  from s2 early fire show ?thesis by blast
qed

text \<open>
  Two clicks at time 5 and the first timeout running at time 2008: both records go, and
  one timeout for identifier 5 stays pending.
\<close>

theorem same_millisecond_clicks_witness:
  "\<exists>s2 s3 s4. run [Click \<lparr>clientX = 10, clientY = 20\<rparr>, Click \<lparr>clientX = 30, clientY = 40\<rparr>]
        (mount (0::int) 0 5) = Some s2 \<and>
     map id_r (ripples s2) = [5, 5] \<and>
     run [Tick 2003] s2 = Some s3 \<and> has_id 5 s3 \<and> step Timeout s3 = Some s4 \<and>
     \<not> has_id 5 s4 \<and> timers s4 = [(2005, 5)] \<and> clock s4 = 2008"
proof -
  let ?a = "\<lparr>clientX = 10::int, clientY = 20\<rparr>"
  let ?b = "\<lparr>clientX = 30::int, clientY = 40\<rparr>"
  let ?s = "mount (0::int) 0 5"
  let ?s2 = "?s\<lparr>ripples := [\<lparr>id_r = 5, x_r = 10, y_r = 20\<rparr>, \<lparr>id_r = 5, x_r = 30, y_r = 40\<rparr>],
     timers := [(2005, 5), (2005, 5)]\<rparr>"
  let ?s3 = "?s2\<lparr>clock := 2008\<rparr>"
  let ?s4 = "?s3\<lparr>ripples := [], timers := [(2005, 5)]\<rparr>"
  have r: "run [] ?s = Some ?s" by simp
  have two: "run [Click ?a, Click ?b] ?s = Some ?s2"
    by (simp add: mount_def returned_def handleWaterClick_def)
  have cont: "run [Tick 2003] ?s2 = Some ?s3" by (simp add: mount_def)
  have h: "has_id 5 ?s3" by (simp add: has_id_def mount_def)
  have st: "step Timeout ?s3 = Some ?s4" by (simp add: mount_def timeout_callback_def)
  have c: "clock ?s = 5" by (simp add: mount_def)
  have hd: "hd (timers ?s3) = (clock ?s + 2000, clock ?s)" by (simp add: mount_def)
  from same_millisecond_clicks [OF r two cont] h hd st c
  have "\<not> has_id 5 ?s4" by metis
  with two cont h st show ?thesis
    by (intro exI [of _ ?s2] exI [of _ ?s3] exI [of _ ?s4]) (simp add: mount_def)
qed

text \<open>
  C8 as it is written ends with the second ripple being removed before its own
  two-second delay has elapsed. After two clicks at time 0, both records are present at
  time 1999, where no timeout can run; in the run where the first timeout runs at time
  2003, the second record is removed then, more than two seconds after its creation.
\<close>

theorem second_ripple_lives_two_seconds:
  "map_option (\<lambda>s. (clock s, map id_r (ripples s), timeout_waiting s))
     (run [Click \<lparr>clientX = 10, clientY = 20\<rparr>, Click \<lparr>clientX = 30, clientY = 40\<rparr>, Tick 1999]
        (mount (0::int) 0 0))
   = Some (1999, [0, 0], False) \<and>
   map_option (\<lambda>s. (clock s, map id_r (ripples s), timers s))
     (run [Click \<lparr>clientX = 10, clientY = 20\<rparr>, Click \<lparr>clientX = 30, clientY = 40\<rparr>, Tick 2003,
           Timeout] (mount (0::int) 0 0))
   = Some (2003, [], [(2000, 0)])"
  by (simp add: mount_def returned_def handleWaterClick_def timeout_waiting_def
        timeout_callback_def)

end
